theory Spec2Isabelle
  imports Main "HOL-Library.Multiset"
begin

section \<open>Data model and operations of the text-analysis pipeline (app.py)\<close>

subsection \<open>Strings and character classes\<close>

text \<open>
  A Python \<open>str\<close> is a sequence of Unicode code points, so text is a list of code points
  (natural numbers); a \<open>char\<close> of HOL is a byte and cannot hold a CJK ideograph.
  \<open>ascii\<close> writes an ASCII literal of the source as such a list.
\<close>

type_synonym ustr = "nat list"

definition ascii :: "string \<Rightarrow> ustr" where
  "ascii s = map of_char s"

text \<open>
  The character classes of the regular expressions in \<open>preprocess_text\<close>: the
  range U+4E00 to U+9FFF (CJK ideographs), \<open>A-Za-z\<close> (ASCII letters), the bracket
  class \<open>[<.*?>]\<close> (the five characters less-than, full stop, asterisk, question mark
  and greater-than), and the white-space class. For a \<open>str\<close> pattern the white-space
  class is Unicode white space, the same set that \<open>str.strip()\<close> removes and
  \<open>str.isspace()\<close> accepts.
\<close>

definition is_cjk :: "nat \<Rightarrow> bool" where
  "is_cjk c = (0x4E00 \<le> c \<and> c \<le> 0x9FFF)"

definition is_ascii_letter :: "nat \<Rightarrow> bool" where
  "is_ascii_letter c = ((0x41 \<le> c \<and> c \<le> 0x5A) \<or> (0x61 \<le> c \<and> c \<le> 0x7A))"

definition is_space :: "nat \<Rightarrow> bool" where
  "is_space c = ((0x09 \<le> c \<and> c \<le> 0x0D) \<or> (0x1C \<le> c \<and> c \<le> 0x20) \<or> c = 0x85 \<or> c = 0xA0
     \<or> c = 0x1680 \<or> (0x2000 \<le> c \<and> c \<le> 0x200A) \<or> c = 0x2028 \<or> c = 0x2029
     \<or> c = 0x202F \<or> c = 0x205F \<or> c = 0x3000)"

definition in_bracket_class :: "nat \<Rightarrow> bool" where
  "in_bracket_class c = (c = 0x3C \<or> c = 0x2E \<or> c = 0x2A \<or> c = 0x3F \<or> c = 0x3E)"

subsection \<open>Normalizer: preprocess_text (lines 31-34)\<close>

text \<open>
  The first \<open>re.sub\<close> replaces every match of a pattern of two alternatives, a
  character of the bracket class or a character that is neither a CJK ideograph nor an
  ASCII letter, by a space; the pattern matches exactly one character, so every matching
  character becomes one space (\<open>sub_pattern\<close>). The second replaces every maximal run
  of white space by one space (\<open>sub_space_runs\<close>), and \<open>.strip()\<close> drops the
  white space at both ends.
\<close>

definition pattern_matches :: "nat \<Rightarrow> bool" where
  "pattern_matches c = (in_bracket_class c \<or> \<not> (is_cjk c \<or> is_ascii_letter c))"

definition sub_pattern :: "ustr \<Rightarrow> ustr" where
  "sub_pattern s = map (\<lambda>c. if pattern_matches c then 0x20 else c) s"

function sub_space_runs :: "ustr \<Rightarrow> ustr" where
  "sub_space_runs [] = []"
| "sub_space_runs (c # cs) =
     (if is_space c then 0x20 # sub_space_runs (dropWhile is_space cs)
      else c # sub_space_runs cs)"
  by pat_completeness auto
termination
  by (relation "measure length") (auto simp: length_dropWhile_le less_Suc_eq_le)

definition strip :: "ustr \<Rightarrow> ustr" where
  "strip s = rev (dropWhile is_space (rev (dropWhile is_space s)))"

definition preprocess_text :: "ustr \<Rightarrow> ustr" where
  "preprocess_text s = strip (sub_space_runs (sub_pattern s))"

subsection \<open>Tokenizer and aggregator: segment_and_count (lines 36-39)\<close>

text \<open>
  \<open>collections.Counter\<close> is a dictionary that keeps insertion order: counting a list
  visits it left to right and executes \<open>self[elem] = self.get(elem, 0) + 1\<close>, so a new
  key goes to the end and a known key keeps its place. An association list in insertion
  order is that dictionary. \<open>most_common(n)\<close> is
  \<open>sorted(items, key=itemgetter(1), reverse=True)[:n]\<close>; Python's sort is stable, also
  with \<open>reverse=True\<close>, and \<open>sort_key\<close> on the negated count is the same stable
  descending sort. A non-positive \<open>n\<close> gives the empty list.
\<close>

type_synonym counter = "(ustr \<times> int) list"

fun counter_incr :: "ustr \<Rightarrow> counter \<Rightarrow> counter" where
  "counter_incr w [] = [(w, 1)]"
| "counter_incr w ((k, n) # r) = (if k = w then (k, n + 1) # r else (k, n) # counter_incr w r)"

definition Counter :: "ustr list \<Rightarrow> counter" where
  "Counter ws = foldl (\<lambda>c w. counter_incr w c) [] ws"

definition most_common :: "int \<Rightarrow> counter \<Rightarrow> counter" where
  "most_common n c = take (nat n) (sort_key (\<lambda>(w, k). - k) c)"

text \<open>
  \<open>jieba.cut\<close> is an external segmentation library, so the segmenter is a parameter
  \<open>jieba_cut\<close> of \<open>segment_and_count\<close>. The list comprehension keeps a token when
  \<open>word.strip()\<close> is non-empty and the token is not in \<open>stopwords\<close>.
\<close>

definition segment_and_count :: "(ustr \<Rightarrow> ustr list) \<Rightarrow> ustr \<Rightarrow> ustr set \<Rightarrow> counter" where
  "segment_and_count jieba_cut text stopwords =
     Counter (filter (\<lambda>word. strip word \<noteq> [] \<and> word \<notin> stopwords) (jieba_cut text))"

text \<open>
  A concrete segmenter for evaluating the pipeline on examples: it yields every white-space
  character as a token of its own and every maximal run of other characters as one token.
  On a text whose runs are single dictionary words or Latin words this is the token stream
  \<open>jieba.cut\<close> yields; on the empty text it yields nothing.
\<close>

fun space_cut_from :: "ustr \<Rightarrow> ustr \<Rightarrow> ustr list" where
  "space_cut_from cur [] = (if cur = [] then [] else [rev cur])"
| "space_cut_from cur (c # cs) =
     (if is_space c then (if cur = [] then [] else [rev cur]) @ [c] # space_cut_from [] cs
      else space_cut_from (c # cur) cs)"

definition space_cut :: "ustr \<Rightarrow> ustr list" where
  "space_cut s = space_cut_from [] s"

text \<open>
  The position at which a token is first yielded, and the ranking that top-N retrieval is
  claimed to follow: higher count first, and among equal counts the token first yielded
  earlier.
\<close>

definition first_index :: "'a list \<Rightarrow> 'a \<Rightarrow> nat" where
  "first_index xs x = length (takeWhile (\<lambda>y. y \<noteq> x) xs)"

definition ranks_before :: "ustr list \<Rightarrow> ustr \<times> int \<Rightarrow> ustr \<times> int \<Rightarrow> bool" where
  "ranks_before toks a b =
     (snd b < snd a \<or> (snd a = snd b \<and> first_index toks (fst a) < first_index toks (fst b)))"

subsection \<open>Extractor: the last line of fetch_text_from_url (line 29)\<close>

text \<open>
  The tree that BeautifulSoup builds: a tag with its name and contents, or a string with the
  class the parser gave it. Plain text is a \<open>NavigableString\<close>; comments, declarations,
  the document type and processing instructions have classes of their own, and so have the
  strings inside script, style and template elements. The soup itself is the tag named
  \<open>[document]\<close>. \<open>soup.body\<close> is \<open>soup.find("body")\<close>: the first descendant in
  document order that is a tag of that name; a tag is always truthy, so \<open>if soup.body\<close>
  tests that one was found. \<open>get_text(strip=True, separator)\<close> visits the descendants in
  document order, keeps the strings whose class is exactly \<open>NavigableString\<close> or
  \<open>CData\<close>, strips each, skips one whose stripped text is empty, and joins the rest with
  the separator.
\<close>

datatype string_class =
    NavigableString | CData | Comment | Declaration | Doctype | ProcessingInstruction
  | Script | Stylesheet | TemplateString

datatype page_element = PageString string_class ustr | Tag ustr "page_element list"

fun descendants :: "page_element \<Rightarrow> page_element list" where
  "descendants (Tag name contents) = concat (map (\<lambda>c. c # descendants c) contents)"
| "descendants (PageString cls s) = []"

fun is_tag_named :: "ustr \<Rightarrow> page_element \<Rightarrow> bool" where
  "is_tag_named name (Tag n contents) = (n = name)"
| "is_tag_named name (PageString cls s) = False"

definition find_tag :: "ustr \<Rightarrow> page_element \<Rightarrow> page_element option" where
  "find_tag name soup = find (is_tag_named name) (descendants soup)"

definition body :: "page_element \<Rightarrow> page_element option" where
  "body soup = find_tag (ascii ''body'') soup"

definition interesting_string_types :: "string_class \<Rightarrow> bool" where
  "interesting_string_types cls = (cls = NavigableString \<or> cls = CData)"

fun all_strings :: "page_element list \<Rightarrow> ustr list" where
  "all_strings [] = []"
| "all_strings (PageString cls s # ds) =
     (if \<not> interesting_string_types cls then all_strings ds
      else if strip s = [] then all_strings ds
      else strip s # all_strings ds)"
| "all_strings (Tag n contents # ds) = all_strings ds"

fun join :: "ustr \<Rightarrow> ustr list \<Rightarrow> ustr" where
  "join sep [] = []"
| "join sep [s] = s"
| "join sep (s # t # r) = s @ sep @ join sep (t # r)"

definition get_text :: "ustr \<Rightarrow> page_element \<Rightarrow> ustr" where
  "get_text separator e = join separator (all_strings (descendants e))"

definition body_text :: "page_element \<Rightarrow> ustr" where
  "body_text soup = (case body soup of Some b \<Rightarrow> get_text [0x0A] b | None \<Rightarrow> [])"

text \<open>
  The Extractor as the specification words it, for comparison with \<open>body_text\<close>: the
  descendant text nodes of the body (the strings \<open>get_text\<close> looks at), each trimmed,
  joined with a line break; the empty string when there is no body.
\<close>

fun text_nodes :: "page_element list \<Rightarrow> ustr list" where
  "text_nodes [] = []"
| "text_nodes (PageString cls s # ds) =
     (if interesting_string_types cls then s # text_nodes ds else text_nodes ds)"
| "text_nodes (Tag n contents # ds) = text_nodes ds"

definition spec_body_text :: "page_element \<Rightarrow> ustr" where
  "spec_body_text soup =
     (case body soup of None \<Rightarrow> []
      | Some b \<Rightarrow> join [0x0A] (map strip (text_nodes (descendants b))))"

subsection \<open>Fetcher: fetch_text_from_url (lines 20-29)\<close>


record http_response =
  status_code :: int
  location :: "ustr option"
  content :: "nat list"
  encoding :: "ustr option"
  apparent_encoding :: ustr

datatype fetch_error = ConnectionError | TooManyRedirects | HTTPError int






definition raise_for_status :: "http_response \<Rightarrow> fetch_error + unit" where
  "raise_for_status response =
     (if (400 \<le> status_code response \<and> status_code response < 500)
         \<or> (500 \<le> status_code response \<and> status_code response < 600)
      then Inl (HTTPError (status_code response)) else Inr ())"

definition response_text :: "(ustr \<Rightarrow> nat list \<Rightarrow> ustr) \<Rightarrow> http_response \<Rightarrow> ustr" where
  "response_text decode response =
     (if content response = [] then []
      else case encoding response of
             Some enc \<Rightarrow> decode enc (content response)
           | None \<Rightarrow> decode (apparent_encoding response) (content response))"







subsection \<open>Chart builders (lines 59-79)\<close>

text \<open>
  A chart is the record of the call that builds it: the plotly primitive, the data frame and
  the keyword arguments of the source. The chart-type names and column names are the string
  literals of the source (\<open>col_word\<close> and \<open>col_freq\<close> are the two column names; the
  others are the chart names vertical bar, horizontal bar, pie, line, scatter and radar).
  The dictionary literal \<open>chart_mapping\<close> builds all five charts before the lookup, in the
  order written. \<open>px.scatter\<close> with \<open>size=\<close> validates the marker sizes and raises
  \<open>ValueError\<close> when the frame has no row (the reference size is not a number) and when a
  size is negative; that call is \<open>scatter_call\<close>. \<open>chart_mapping.get(chart_type)\<close> is a
  dictionary lookup that returns \<open>None\<close> for a missing key.
\<close>

record data_frame =
  columns :: "ustr list"
  rows :: "(ustr \<times> int) list"

datatype figure =
    px_bar data_frame ustr ustr "ustr option" ustr
  | px_pie data_frame ustr ustr ustr
  | px_line data_frame ustr ustr ustr
  | px_scatter data_frame ustr ustr ustr ustr
  | px_line_polar "int list" "ustr list" bool ustr "ustr option" "int option"

definition col_word :: ustr where "col_word = [0x8BCD, 0x8BED]"

definition col_freq :: ustr where "col_freq = [0x9891, 0x7387]"

definition vertical_bar :: ustr where "vertical_bar = [0x5782, 0x76F4, 0x6761, 0x5F62, 0x56FE]"

definition horizontal_bar :: ustr where "horizontal_bar = [0x6C34, 0x5E73, 0x6761, 0x5F62, 0x56FE]"

definition pie_chart :: ustr where "pie_chart = [0x997C, 0x56FE]"

definition line_chart :: ustr where "line_chart = [0x6298, 0x7EBF, 0x56FE]"

definition scatter_chart :: ustr where "scatter_chart = [0x6563, 0x70B9, 0x56FE]"

definition radar_chart :: ustr where "radar_chart = [0x96F7, 0x8FBE, 0x56FE]"

definition DataFrame :: "(ustr \<times> int) list \<Rightarrow> ustr list \<Rightarrow> data_frame" where
  "DataFrame data cols = \<lparr>columns = cols, rows = data\<rparr>"

datatype chart_error = ValueError

definition scatter_call ::
  "data_frame \<Rightarrow> ustr \<Rightarrow> ustr \<Rightarrow> ustr \<Rightarrow> ustr \<Rightarrow> chart_error + figure" where
  "scatter_call df x y size_column title =
     (if rows df = [] \<or> (\<exists>(w, k) \<in> set (rows df). k < 0) then Inl ValueError
      else Inr (px_scatter df x y size_column title))"

definition create_plotly_chart :: "ustr \<Rightarrow> counter \<Rightarrow> int \<Rightarrow> chart_error + figure option" where
  "create_plotly_chart chart_type word_counts top_n =
     (let df = DataFrame (most_common top_n word_counts) [col_word, col_freq]
      in case scatter_call df col_word col_freq col_freq scatter_chart of
           Inl e \<Rightarrow> Inl e
         | Inr scatter \<Rightarrow>
             Inr (map_of
               [(vertical_bar, px_bar df col_word col_freq None vertical_bar),
                (horizontal_bar, px_bar df col_freq col_word (Some (ascii ''h'')) horizontal_bar),
                (pie_chart, px_pie df col_freq col_word pie_chart),
                (line_chart, px_line df col_word col_freq line_chart),
                (scatter_chart, scatter)]
               chart_type))"

fun update_traces :: "ustr \<Rightarrow> int \<Rightarrow> figure \<Rightarrow> figure" where
  "update_traces fill marker_size (px_line_polar r theta line_close title f m) =
     px_line_polar r theta line_close title (Some fill) (Some marker_size)"
| "update_traces fill marker_size fig = fig"

definition create_plotly_radar_chart :: "counter \<Rightarrow> int \<Rightarrow> figure option" where
  "create_plotly_radar_chart word_counts top_n =
     (let top_words = most_common top_n word_counts
      in if top_words = [] then None
         else let words = map fst top_words; counts = map snd top_words;
                  fig = px_line_polar counts words True radar_chart None None
              in Some (update_traces (ascii ''toself'') 5 fig))"

subsection \<open>Auxiliary notions for the proofs\<close>

definition is_word_char :: "nat \<Rightarrow> bool" where
  "is_word_char c = (is_cjk c \<or> is_ascii_letter c)"

fun no_adjacent_space :: "ustr \<Rightarrow> bool" where
  "no_adjacent_space (a # b # r) = (\<not> (is_space a \<and> is_space b) \<and> no_adjacent_space (b # r))"
| "no_adjacent_space _ = True"

definition normal_form :: "ustr \<Rightarrow> bool" where
  "normal_form s = ((\<forall>c \<in> set s. is_word_char c \<or> c = 0x20) \<and> no_adjacent_space s
      \<and> (s \<noteq> [] \<longrightarrow> \<not> is_space (hd s) \<and> \<not> is_space (last s)))"

fun first_seen :: "'a list \<Rightarrow> 'a list" where
  "first_seen [] = []"
| "first_seen (w # ws) = w # filter (\<lambda>x. x \<noteq> w) (first_seen ws)"

section \<open>Lemmas\<close>

subsection \<open>Evaluation\<close>

lemmas char_defs = pattern_matches_def in_bracket_class_def is_cjk_def is_ascii_letter_def is_space_def

lemmas chart_names = col_word_def col_freq_def vertical_bar_def horizontal_bar_def pie_chart_def
  line_chart_def scatter_chart_def radar_chart_def

lemmas eval_defs = preprocess_text_def strip_def sub_pattern_def char_defs
  segment_and_count_def Counter_def space_cut_def most_common_def

subsection \<open>The Normalizer reaches a normal form and fixes it\<close>

lemma word_char_not_space: "is_word_char c \<Longrightarrow> \<not> is_space c"
  by (auto simp: is_word_char_def char_defs)

lemma space_is_space: "is_space 0x20"
  by (simp add: is_space_def)

lemma sub_pattern_chars: "c \<in> set (sub_pattern s) \<Longrightarrow> is_word_char c \<or> c = 0x20"
  by (auto simp: sub_pattern_def is_word_char_def pattern_matches_def)

lemma sub_pattern_fixed:
  "\<forall>c \<in> set s. is_word_char c \<or> c = 0x20 \<Longrightarrow> sub_pattern s = s"
proof -
  assume h: "\<forall>c \<in> set s. is_word_char c \<or> c = 0x20"
  have "\<And>c. c \<in> set s \<Longrightarrow> (if pattern_matches c then 0x20 else c) = c"
  proof -
    fix c assume "c \<in> set s"
    with h have "is_word_char c \<or> c = 0x20" by blast
    then show "(if pattern_matches c then 0x20 else c) = c"
      by (auto simp: is_word_char_def char_defs)
  qed
  then show ?thesis unfolding sub_pattern_def by (simp add: map_idI)
qed

lemma set_sub_space_runs: "set (sub_space_runs s) \<subseteq> insert 0x20 (set s)"
proof (induction s rule: sub_space_runs.induct)
  case 1
  then show ?case by simp
next
  case (2 c cs)
  show ?case
  proof (cases "is_space c")
    case True
    with 2 have "set (sub_space_runs (dropWhile is_space cs)) \<subseteq> insert 0x20 (set (dropWhile is_space cs))"
      by simp
    moreover have "set (dropWhile is_space cs) \<subseteq> set cs"
      by (rule set_dropWhileD[THEN subsetI]) 
    ultimately show ?thesis using True by auto
  next
    case False
    with 2 show ?thesis by auto
  qed
qed

lemma hd_sub_space_runs:
  "s \<noteq> [] \<Longrightarrow> \<not> is_space (hd s) \<Longrightarrow> sub_space_runs s \<noteq> [] \<and> hd (sub_space_runs s) = hd s"
  by (cases s) auto

lemma no_adjacent_Cons:
  "no_adjacent_space (a # s) = ((s \<noteq> [] \<longrightarrow> \<not> (is_space a \<and> is_space (hd s))) \<and> no_adjacent_space s)"
  by (cases s) auto

lemma no_adjacent_sub_space_runs: "no_adjacent_space (sub_space_runs s)"
proof (induction s rule: sub_space_runs.induct)
  case 1
  then show ?case by simp
next
  case (2 c cs)
  show ?case
  proof (cases "is_space c")
    case True
    let ?d = "dropWhile is_space cs"
    have ih: "no_adjacent_space (sub_space_runs ?d)" using 2 True by simp
    have "sub_space_runs ?d \<noteq> [] \<Longrightarrow> \<not> is_space (hd (sub_space_runs ?d))"
    proof -
      assume ne: "sub_space_runs ?d \<noteq> []"
      have dne: "?d \<noteq> []"
      proof
        assume "?d = []"
        then have "sub_space_runs ?d = []" by (simp only: sub_space_runs.simps)
        with ne show False by contradiction
      qed
      then have "\<not> is_space (hd ?d)" by (rule hd_dropWhile)
      with dne show ?thesis using hd_sub_space_runs by metis
    qed
    with ih True show ?thesis by (simp add: no_adjacent_Cons)
  next
    case False
    with 2 show ?thesis by (simp add: no_adjacent_Cons)
  qed
qed

lemma no_adjacent_append: "no_adjacent_space (a @ b) \<Longrightarrow> no_adjacent_space a \<and> no_adjacent_space b"
proof (induction a)
  case Nil
  then show ?case by simp
next
  case (Cons x a)
  then show ?case by (cases a) (auto simp: no_adjacent_Cons)
qed

lemma strip_decomp: "\<exists>a b. s = a @ strip s @ b"
proof -
  let ?d = "dropWhile is_space s"
  have e: "takeWhile is_space (rev ?d) @ dropWhile is_space (rev ?d) = rev ?d"
    by (rule takeWhile_dropWhile_id)
  have "rev (takeWhile is_space (rev ?d) @ dropWhile is_space (rev ?d)) = ?d"
    by (simp only: e rev_rev_ident)
  then have "?d = strip s @ rev (takeWhile is_space (rev ?d))"
    by (simp only: rev_append strip_def)
  moreover have "s = takeWhile is_space s @ ?d" by simp
  ultimately show ?thesis by metis
qed

lemma no_adjacent_strip: "no_adjacent_space s \<Longrightarrow> no_adjacent_space (strip s)"
proof -
  assume h: "no_adjacent_space s"
  obtain a b where "s = a @ strip s @ b" using strip_decomp by blast
  with h have "no_adjacent_space (a @ strip s @ b)" by simp
  then show ?thesis using no_adjacent_append by blast
qed

lemma set_strip: "set (strip s) \<subseteq> set s"
proof -
  obtain a b where "s = a @ strip s @ b" using strip_decomp by blast
  then have "set s = set a \<union> set (strip s) \<union> set b" by (metis set_append Un_assoc)
  then show ?thesis by blast
qed

lemma last_dropWhile_ne: "dropWhile P xs \<noteq> [] \<Longrightarrow> last (dropWhile P xs) = last xs"
  by (induction xs) (auto split: if_splits)

lemma strip_ends:
  "strip s \<noteq> [] \<Longrightarrow> \<not> is_space (hd (strip s)) \<and> \<not> is_space (last (strip s))"
proof -
  assume ne: "strip s \<noteq> []"
  let ?d = "dropWhile is_space s"
  let ?e = "dropWhile is_space (rev ?d)"
  have ene: "?e \<noteq> []" using ne by (simp add: strip_def)
  have dne: "?d \<noteq> []"
  proof
    assume "?d = []"
    then have "?e = []" by (simp only: rev.simps dropWhile.simps)
    with ene show False by contradiction
  qed
  have "last (strip s) = hd ?e" using ene by (simp add: strip_def last_rev)
  moreover have "\<not> is_space (hd ?e)" using ene by (rule hd_dropWhile)
  moreover have "hd (strip s) = last ?e" using ene by (simp add: strip_def hd_rev)
  moreover have "last ?e = last (rev ?d)" using ene by (rule last_dropWhile_ne)
  moreover have "last (rev ?d) = hd ?d" using dne by (simp add: last_rev)
  moreover have "\<not> is_space (hd ?d)" using dne by (rule hd_dropWhile)
  ultimately show ?thesis by simp
qed

lemma strip_fixed:
  "s \<noteq> [] \<longrightarrow> \<not> is_space (hd s) \<and> \<not> is_space (last s) \<Longrightarrow> strip s = s"
proof (cases "s = []")
  case True
  then show ?thesis by (simp add: strip_def)
next
  case False
  assume "s \<noteq> [] \<longrightarrow> \<not> is_space (hd s) \<and> \<not> is_space (last s)"
  with False have h: "\<not> is_space (hd s)" and l: "\<not> is_space (last s)" by auto
  from False h have d: "dropWhile is_space s = s" by (cases s) auto
  from False have "rev s \<noteq> []" by simp
  moreover from False l have "\<not> is_space (hd (rev s))" by (simp add: hd_rev)
  ultimately have "dropWhile is_space (rev s) = rev s" by (cases "rev s") auto
  with d show ?thesis by (simp add: strip_def)
qed

lemma sub_space_runs_fixed:
  "no_adjacent_space s \<Longrightarrow> \<forall>c \<in> set s. is_space c \<longrightarrow> c = 0x20 \<Longrightarrow> sub_space_runs s = s"
proof (induction s rule: sub_space_runs.induct)
  case 1
  then show ?case by simp
next
  case (2 c cs)
  from "2.prems" have na: "no_adjacent_space cs" and sp: "\<forall>c \<in> set cs. is_space c \<longrightarrow> c = 0x20"
    by (auto simp: no_adjacent_Cons)
  show ?case
  proof (cases "is_space c")
    case True
    with "2.prems" have c: "c = 0x20" by simp
    from True "2.prems" have "cs \<noteq> [] \<Longrightarrow> \<not> is_space (hd cs)" by (auto simp: no_adjacent_Cons)
    then have d: "dropWhile is_space cs = cs" by (cases cs) auto
    from "2.IH"(1)[OF True] na sp d have "sub_space_runs cs = cs" by simp
    with True c d show ?thesis by simp
  next
    case False
    from "2.IH"(2)[OF False] na sp have "sub_space_runs cs = cs" by simp
    with False show ?thesis by simp
  qed
qed

lemma preprocess_text_normal_form: "normal_form (preprocess_text s)"
proof -
  let ?p = "sub_pattern s"
  let ?r = "sub_space_runs ?p"
  have "set (strip ?r) \<subseteq> insert 0x20 (set ?p)"
    using set_strip set_sub_space_runs by blast
  then have chars: "\<forall>c \<in> set (strip ?r). is_word_char c \<or> c = 0x20"
    using sub_pattern_chars by blast
  have "no_adjacent_space (strip ?r)"
    by (rule no_adjacent_strip) (rule no_adjacent_sub_space_runs)
  with chars strip_ends show ?thesis
    unfolding normal_form_def preprocess_text_def by blast
qed

lemma normal_form_fixed: "normal_form s \<Longrightarrow> preprocess_text s = s"
proof -
  assume n: "normal_form s"
  then have chars: "\<forall>c \<in> set s. is_word_char c \<or> c = 0x20" by (simp add: normal_form_def)
  then have p: "sub_pattern s = s" by (rule sub_pattern_fixed)
  from chars have "\<forall>c \<in> set s. is_space c \<longrightarrow> c = 0x20"
    using word_char_not_space by blast
  with n have r: "sub_space_runs s = s" by (simp add: normal_form_def sub_space_runs_fixed)
  from n have "strip s = s" by (intro strip_fixed) (simp add: normal_form_def)
  with p r show ?thesis by (simp add: preprocess_text_def)
qed

lemma no_adjacent_nth:
  "no_adjacent_space s \<Longrightarrow> Suc i < length s \<Longrightarrow> \<not> (is_space (s ! i) \<and> is_space (s ! Suc i))"
proof (induction s arbitrary: i rule: no_adjacent_space.induct)
  case (1 a b r)
  then show ?case by (cases i) auto
qed auto

lemma strip_Nil: "strip [] = []"
  by (simp add: strip_def)

subsection \<open>Counter keeps first-seen order and exact counts\<close>

lemma set_first_seen: "set (first_seen ws) = set ws"
  by (induction ws) auto

lemma distinct_first_seen: "distinct (first_seen ws)"
  by (induction ws) auto

lemma keys_counter_incr:
  "map fst (counter_incr w c) = (if w \<in> set (map fst c) then map fst c else map fst c @ [w])"
  by (induction c) (auto split: if_splits)

lemma keys_foldl_counter_incr:
  "map fst (foldl (\<lambda>c w. counter_incr w c) acc ws)
     = map fst acc @ filter (\<lambda>x. x \<notin> set (map fst acc)) (first_seen ws)"
proof (induction ws arbitrary: acc)
  case Nil
  then show ?case by simp
next
  case (Cons w ws)
  show ?case
  proof (cases "w \<in> set (map fst acc)")
    case True
    then have k: "map fst (counter_incr w acc) = map fst acc" by (simp add: keys_counter_incr)
    have "filter (\<lambda>x. x \<notin> set (map fst acc)) (filter (\<lambda>x. x \<noteq> w) (first_seen ws))
            = filter (\<lambda>x. x \<notin> set (map fst acc)) (first_seen ws)"
      using True by (auto intro: filter_cong)
    with True k Cons.IH[of "counter_incr w acc"] show ?thesis by simp
  next
    case False
    then have k: "map fst (counter_incr w acc) = map fst acc @ [w]" by (simp add: keys_counter_incr)
    have "filter (\<lambda>x. x \<notin> set (map fst acc @ [w])) (first_seen ws)
            = filter (\<lambda>x. x \<notin> set (map fst acc)) (filter (\<lambda>x. x \<noteq> w) (first_seen ws))"
      by (auto intro: filter_cong)
    with False k Cons.IH[of "counter_incr w acc"] show ?thesis by simp
  qed
qed

lemma keys_Counter: "map fst (Counter ws) = first_seen ws"
  by (simp add: Counter_def keys_foldl_counter_incr)

lemma distinct_keys_Counter: "distinct (map fst (Counter ws))"
  by (simp add: keys_Counter distinct_first_seen)

lemma map_of_counter_incr:
  "map_of (counter_incr w c) = (map_of c)(w \<mapsto> (case map_of c w of None \<Rightarrow> 1 | Some n \<Rightarrow> n + 1))"
  by (induction c) (auto simp: fun_eq_iff)

lemma Counter_snoc: "Counter (ws @ [w]) = counter_incr w (Counter ws)"
  by (simp add: Counter_def)

lemma map_of_Counter:
  "map_of (Counter ws) x = (if x \<in> set ws then Some (int (count_list ws x)) else None)"
proof (induction ws rule: rev_induct)
  case Nil
  then show ?case by (simp add: Counter_def)
next
  case (snoc w ws)
  then show ?case by (auto simp: Counter_snoc map_of_counter_incr)
qed

lemma Counter_entry:
  "(w, k) \<in> set (Counter ws) \<longleftrightarrow> w \<in> set ws \<and> k = int (count_list ws w)"
proof -
  have "(w, k) \<in> set (Counter ws) \<longleftrightarrow> map_of (Counter ws) w = Some k"
    using distinct_keys_Counter by (simp add: map_of_eq_Some_iff)
  then show ?thesis by (auto simp: map_of_Counter)
qed

lemma count_list_pos: "w \<in> set ws \<Longrightarrow> 0 < count_list ws w"
  by (induction ws) auto

lemma segment_and_count_entry:
  "(w, k) \<in> set (segment_and_count jieba_cut text stopwords) \<longleftrightarrow>
     w \<in> set (jieba_cut text) \<and> strip w \<noteq> [] \<and> w \<notin> stopwords
     \<and> k = int (count_list (filter (\<lambda>word. strip word \<noteq> [] \<and> word \<notin> stopwords) (jieba_cut text)) w)"
  by (auto simp: segment_and_count_def Counter_entry)

lemma first_index_Cons: "first_index (t # ts) x = (if t = x then 0 else Suc (first_index ts x))"
  by (simp add: first_index_def)

lemma first_seen_sorted:
  "sorted_wrt (\<lambda>a b. first_index ws a < first_index ws b) (first_seen ws)"
proof (induction ws)
  case Nil
  then show ?case by simp
next
  case (Cons w ws)
  let ?r = "filter (\<lambda>x. x \<noteq> w) (first_seen ws)"
  have "sorted_wrt (\<lambda>a b. first_index ws a < first_index ws b) ?r"
    using Cons.IH by (rule sorted_wrt_filter)
  then have "sorted_wrt (\<lambda>a b. first_index (w # ws) a < first_index (w # ws) b) ?r"
    by (rule sorted_wrt_mono_rel[rotated]) (auto simp: first_index_Cons)
  moreover have "\<forall>x \<in> set ?r. first_index (w # ws) w < first_index (w # ws) x"
    by (auto simp: first_index_Cons)
  ultimately show ?case by simp
qed

lemma first_index_filter:
  "P a \<Longrightarrow> P b \<Longrightarrow>
     first_index (filter P ts) a < first_index (filter P ts) b \<longleftrightarrow> first_index ts a < first_index ts b"
proof (induction ts)
  case Nil
  then show ?case by (simp add: first_index_def)
next
  case (Cons t ts)
  then show ?case by (auto simp: first_index_Cons)
qed

lemma segment_and_count_first_seen_order:
  "sorted_wrt (\<lambda>a b. first_index (jieba_cut text) (fst a) < first_index (jieba_cut text) (fst b))
     (segment_and_count jieba_cut text stopwords)"
proof -
  let ?keep = "\<lambda>word. strip word \<noteq> [] \<and> word \<notin> stopwords"
  let ?toks = "jieba_cut text"
  let ?kept = "filter ?keep ?toks"
  have "sorted_wrt (\<lambda>a b. first_index ?kept a < first_index ?kept b) (first_seen ?kept)"
    by (rule first_seen_sorted)
  moreover have "\<And>a b. a \<in> set (first_seen ?kept) \<Longrightarrow> b \<in> set (first_seen ?kept) \<Longrightarrow>
      first_index ?kept a < first_index ?kept b \<Longrightarrow> first_index ?toks a < first_index ?toks b"
  proof -
    fix a b
    assume "a \<in> set (first_seen ?kept)" and "b \<in> set (first_seen ?kept)"
       and lt: "first_index ?kept a < first_index ?kept b"
    then have "?keep a" and "?keep b" by (simp_all add: set_first_seen)
    then show "first_index ?toks a < first_index ?toks b"
      using lt first_index_filter[of ?keep a b ?toks] by blast
  qed
  ultimately have "sorted_wrt (\<lambda>a b. first_index ?toks a < first_index ?toks b) (first_seen ?kept)"
    by (rule sorted_wrt_mono_rel[rotated])
  then have "sorted_wrt (\<lambda>a b. first_index ?toks a < first_index ?toks b)
      (map fst (segment_and_count jieba_cut text stopwords))"
    by (simp add: segment_and_count_def keys_Counter)
  then show ?thesis by (simp add: sorted_wrt_map)
qed

subsection \<open>The stable descending sort behind most_common\<close>

lemma set_insort_key_eq: "set (insort_key f x ys) = insert x (set ys)"
  by (induction ys) auto

lemma insort_key_stable_order:
  fixes f :: "'a \<Rightarrow> int"
  assumes "sorted_wrt (\<lambda>a b. f a < f b \<or> (f a = f b \<and> P a b)) ys"
      and "\<forall>y \<in> set ys. P x y"
  shows "sorted_wrt (\<lambda>a b. f a < f b \<or> (f a = f b \<and> P a b)) (insort_key f x ys)"
  using assms
proof (induction ys)
  case Nil
  then show ?case by simp
next
  case (Cons y ys)
  show ?case
  proof (cases "f x \<le> f y")
    case True
    have "\<forall>z \<in> set (y # ys). f x < f z \<or> (f x = f z \<and> P x z)"
    proof
      fix z assume z: "z \<in> set (y # ys)"
      then have "f y \<le> f z" using Cons.prems(1) by auto
      with True have "f x \<le> f z" by simp
      moreover have "P x z" using Cons.prems(2) z by blast
      ultimately show "f x < f z \<or> (f x = f z \<and> P x z)" by auto
    qed
    with True Cons.prems(1) show ?thesis by simp
  next
    case False
    have ih: "sorted_wrt (\<lambda>a b. f a < f b \<or> (f a = f b \<and> P a b)) (insort_key f x ys)"
      using Cons by simp
    have "\<forall>z \<in> set (insort_key f x ys). f y < f z \<or> (f y = f z \<and> P y z)"
      using False Cons.prems(1) by (auto simp: set_insort_key_eq)
    with False ih show ?thesis by simp
  qed
qed

lemma sort_key_stable_order:
  fixes f :: "'a \<Rightarrow> int"
  shows "sorted_wrt P xs \<Longrightarrow>
     sorted_wrt (\<lambda>a b. f a < f b \<or> (f a = f b \<and> P a b)) (sort_key f xs)"
proof (induction xs)
  case Nil
  then show ?case by simp
next
  case (Cons x xs)
  then have "sorted_wrt (\<lambda>a b. f a < f b \<or> (f a = f b \<and> P a b)) (sort_key f xs)" by simp
  moreover have "\<forall>y \<in> set (sort_key f xs). P x y" using Cons.prems by simp
  ultimately show ?case by (simp add: insort_key_stable_order)
qed

lemma sort_key_ranked:
  assumes "sorted_wrt (\<lambda>a b. first_index toks (fst a) < first_index toks (fst b)) c"
  shows "sorted_wrt (ranks_before toks) (sort_key (\<lambda>(w, k). - k) c)"
proof -
  let ?f = "\<lambda>(w, k). - (k::int)"
  let ?P = "\<lambda>a b. first_index toks (fst a) < first_index toks (fst b)"
  have "sorted_wrt (\<lambda>a b. ?f a < ?f b \<or> (?f a = ?f b \<and> ?P a b)) (sort_key ?f c)"
    using assms by (rule sort_key_stable_order)
  then show ?thesis
    by (rule sorted_wrt_mono_rel[rotated]) (auto simp: ranks_before_def split: prod.splits)
qed

lemma sorted_wrt_take_drop:
  "sorted_wrt R xs \<Longrightarrow> a \<in> set (take n xs) \<Longrightarrow> b \<in> set (drop n xs) \<Longrightarrow> R a b"
proof -
  assume "sorted_wrt R xs" and a: "a \<in> set (take n xs)" and b: "b \<in> set (drop n xs)"
  then have "sorted_wrt R (take n xs @ drop n xs)" by simp
  then show "R a b" using a b unfolding sorted_wrt_append by blast
qed

lemma most_common_length: "length (most_common n c) = min (nat n) (length c)"
  by (simp add: most_common_def min.commute)

lemma most_common_subset: "set (most_common n c) \<subseteq> set c"
proof -
  have "set (take (nat n) (sort_key (\<lambda>(w, k). - k) c)) \<subseteq> set (sort_key (\<lambda>(w, k). - k) c)"
    by (rule set_take_subset)
  then show ?thesis by (simp add: most_common_def)
qed

lemma most_common_descending: "sorted_wrt (\<lambda>a b. snd b \<le> snd a) (most_common n c)"
proof -
  let ?f = "\<lambda>(w, k). - (k::int)"
  have "sorted (map ?f (sort_key ?f c))" by (rule sorted_sort_key)
  then have "sorted_wrt (\<lambda>a b. ?f a \<le> ?f b) (sort_key ?f c)"
    by (simp add: sorted_map)
  then have "sorted_wrt (\<lambda>a b. snd b \<le> snd a) (sort_key ?f c)"
    by (rule sorted_wrt_mono_rel[rotated]) (auto split: prod.splits)
  then show ?thesis unfolding most_common_def by (rule sorted_wrt_take)
qed

lemma most_common_all: "int (length c) \<le> n \<Longrightarrow> mset (most_common n c) = mset c"
  by (simp add: most_common_def)

lemma most_common_Nil_iff: "most_common n c = [] \<longleftrightarrow> c = [] \<or> n \<le> 0"
proof -
  have "length (most_common n c) = 0 \<longleftrightarrow> c = [] \<or> n \<le> 0"
    unfolding most_common_length by (cases c) (auto simp: min_def)
  then show ?thesis by simp
qed

subsection \<open>The concrete segmenter keeps the segmenter's contract\<close>

lemma strip_all_space: "\<forall>c \<in> set w. is_space c \<Longrightarrow> strip w = []"
proof -
  assume "\<forall>c \<in> set w. is_space c"
  then have d: "dropWhile is_space w = []" by simp
  show ?thesis unfolding strip_def d by simp
qed

lemma concat_space_cut_from: "concat (space_cut_from cur s) = rev cur @ s"
  by (induction cur s rule: space_cut_from.induct) auto

lemma concat_space_cut: "concat (space_cut s) = s"
  by (simp add: space_cut_def concat_space_cut_from)

lemma space_cut_from_pure:
  "\<forall>c \<in> set cur. \<not> is_space c \<Longrightarrow> tok \<in> set (space_cut_from cur s) \<Longrightarrow>
     (\<forall>c \<in> set tok. is_space c) \<or> (\<forall>c \<in> set tok. \<not> is_space c)"
  by (induction cur s rule: space_cut_from.induct) (auto split: if_splits)

lemma space_cut_pure:
  "tok \<in> set (space_cut s) \<Longrightarrow> (\<forall>c \<in> set tok. is_space c) \<or> (\<forall>c \<in> set tok. \<not> is_space c)"
  using space_cut_from_pure[of "[]" tok s] by (simp add: space_cut_def)

subsection \<open>Extractor and Fetcher\<close>

lemma is_tag_named_iff: "is_tag_named name e \<longleftrightarrow> (\<exists>contents. e = Tag name contents)"
  by (cases e) auto

lemma all_strings_text_nodes:
  "all_strings ds = filter (\<lambda>s. s \<noteq> []) (map strip (text_nodes ds))"
  by (induction ds rule: all_strings.induct) auto

lemma body_None_iff:
  "body soup = None \<longleftrightarrow> \<not> (\<exists>contents. Tag (ascii ''body'') contents \<in> set (descendants soup))"
proof -
  have "body soup = None \<longleftrightarrow> \<not> (\<exists>e. e \<in> set (descendants soup) \<and> is_tag_named (ascii ''body'') e)"
    unfolding body_def find_tag_def by (rule find_None_iff)
  then show ?thesis unfolding is_tag_named_iff by blast
qed

lemma find_first: "P b \<Longrightarrow> \<forall>e \<in> set pre. \<not> P e \<Longrightarrow> find P (pre @ b # post) = Some b"
  by (induction pre) auto

lemma body_first:
  "descendants soup = pre @ b # post \<Longrightarrow> is_tag_named (ascii ''body'') b \<Longrightarrow>
     \<forall>e \<in> set pre. \<not> is_tag_named (ascii ''body'') e \<Longrightarrow> body soup = Some b"
  unfolding body_def find_tag_def by (simp add: find_first)

lemma body_present:
  assumes "\<exists>contents. Tag (ascii ''body'') contents \<in> set (descendants soup)"
  shows "\<exists>pre b post. descendants soup = pre @ b # post \<and> is_tag_named (ascii ''body'') b
           \<and> (\<forall>e \<in> set pre. \<not> is_tag_named (ascii ''body'') e)"
proof -
  from assms have "\<exists>e \<in> set (descendants soup). is_tag_named (ascii ''body'') e"
    unfolding is_tag_named_iff by blast
  then show ?thesis by (rule split_list_first_prop)
qed

lemma raise_for_status_iff:
  "raise_for_status r = Inl e \<longleftrightarrow> e = HTTPError (status_code r) \<and> 400 \<le> status_code r \<and> status_code r < 600"
  by (auto simp: raise_for_status_def)

lemma raise_for_status_ok:
  "raise_for_status r = Inr () \<longleftrightarrow> \<not> (400 \<le> status_code r \<and> status_code r < 600)"
  by (auto simp: raise_for_status_def)

lemma response_text_forced_utf8:
  "response_text decode (r\<lparr>encoding := Some (ascii ''utf-8'')\<rparr>)
     = (if content r = [] then [] else decode (ascii ''utf-8'') (content r))"
  by (simp add: response_text_def)







subsection \<open>Chart builders\<close>

lemma scatter_call_empty: "rows df = [] \<Longrightarrow> scatter_call df x y s t = Inl ValueError"
  by (simp add: scatter_call_def)

lemma scatter_call_ok:
  "rows df \<noteq> [] \<Longrightarrow> \<forall>(w, k) \<in> set (rows df). 0 \<le> k \<Longrightarrow>
     scatter_call df x y s t = Inr (px_scatter df x y s t)"
  by (auto simp: scatter_call_def)

section \<open>The claims\<close>

text \<open>
  Claim C1. For every frequency map produced by \<open>segment_and_count\<close> and every N, top-N
  retrieval returns the tokens with the highest counts: it returns min(N, number of tokens)
  entries of the map, listed by descending count, among equal counts the token first yielded
  earlier by the segmenter first, and every entry it leaves out ranks after every entry it
  returns. For the map of the specification's example (three two-character words, written
  here as code points, counted 5, 3 and 3) and N = 2, the first result is the word counted 5
  and the second is whichever of the two words counted 3 was seen first.
\<close>

theorem most_common_tie_break:
  "(let fm = segment_and_count jieba_cut text stopwords; top = most_common n fm
    in length top = min (nat n) (length fm)
       \<and> set top \<subseteq> set fm
       \<and> sorted_wrt (ranks_before (jieba_cut text)) top
       \<and> (\<forall>a \<in> set top. \<forall>b \<in> set fm - set top. ranks_before (jieba_cut text) a b))
   \<and> most_common 2 [([0x6D4B, 0x8BD5], 5), ([0x5206, 0x6790], 3), ([0x6570, 0x636E], 3)]
        = [([0x6D4B, 0x8BD5], 5), ([0x5206, 0x6790], 3)]
   \<and> most_common 2 [([0x6D4B, 0x8BD5], 5), ([0x6570, 0x636E], 3), ([0x5206, 0x6790], 3)]
        = [([0x6D4B, 0x8BD5], 5), ([0x6570, 0x636E], 3)]"
proof -
  let ?fm = "segment_and_count jieba_cut text stopwords"
  let ?s = "sort_key (\<lambda>(w, k). - k) ?fm"
  let ?top = "most_common n ?fm"
  have ranked: "sorted_wrt (ranks_before (jieba_cut text)) ?s"
    by (rule sort_key_ranked) (rule segment_and_count_first_seen_order)
  have top: "?top = take (nat n) ?s" by (simp add: most_common_def)
  have l: "length ?top = min (nat n) (length ?fm)" by (rule most_common_length)
  have sub: "set ?top \<subseteq> set ?fm" by (rule most_common_subset)
  have srt: "sorted_wrt (ranks_before (jieba_cut text)) ?top"
    unfolding top using ranked by (rule sorted_wrt_take)
  have rest: "\<forall>a \<in> set ?top. \<forall>b \<in> set ?fm - set ?top. ranks_before (jieba_cut text) a b"
  proof (intro ballI)
    fix a b assume a: "a \<in> set ?top" and b: "b \<in> set ?fm - set ?top"
    have "set ?s = set (take (nat n) ?s) \<union> set (drop (nat n) ?s)"
      by (metis append_take_drop_id set_append)
    then have "b \<in> set (drop (nat n) ?s)" using b top by auto
    with ranked a show "ranks_before (jieba_cut text) a b"
      unfolding top by (rule sorted_wrt_take_drop)
  qed
  have e1: "most_common 2 [([0x6D4B, 0x8BD5], 5), ([0x5206, 0x6790], 3), ([0x6570, 0x636E], 3)]
        = [([0x6D4B, 0x8BD5], 5), ([0x5206, 0x6790], 3)]"
    by (simp add: most_common_def)
  have e2: "most_common 2 [([0x6D4B, 0x8BD5], 5), ([0x6570, 0x636E], 3), ([0x5206, 0x6790], 3)]
        = [([0x6D4B, 0x8BD5], 5), ([0x6570, 0x636E], 3)]"
    by (simp add: most_common_def)
  from l sub srt rest e1 e2 show ?thesis unfolding Let_def by blast
qed

text \<open>
  C1 at a concrete text: five, three and three occurrences, the second token seen before the
  third; it ranks before it and is the second of the top two.
\<close>

theorem most_common_tie_break_witness:
  "segment_and_count space_cut
      [0x6D4B, 0x8BD5, 0x20, 0x5206, 0x6790, 0x20, 0x6570, 0x636E, 0x20,
       0x6D4B, 0x8BD5, 0x20, 0x5206, 0x6790, 0x20, 0x6570, 0x636E, 0x20,
       0x6D4B, 0x8BD5, 0x20, 0x5206, 0x6790, 0x20, 0x6570, 0x636E, 0x20,
       0x6D4B, 0x8BD5, 0x20, 0x6D4B, 0x8BD5] {}
     = [([0x6D4B, 0x8BD5], 5), ([0x5206, 0x6790], 3), ([0x6570, 0x636E], 3)]
   \<and> most_common 2 (segment_and_count space_cut
      [0x6D4B, 0x8BD5, 0x20, 0x5206, 0x6790, 0x20, 0x6570, 0x636E, 0x20,
       0x6D4B, 0x8BD5, 0x20, 0x5206, 0x6790, 0x20, 0x6570, 0x636E, 0x20,
       0x6D4B, 0x8BD5, 0x20, 0x5206, 0x6790, 0x20, 0x6570, 0x636E, 0x20,
       0x6D4B, 0x8BD5, 0x20, 0x6D4B, 0x8BD5] {})
     = [([0x6D4B, 0x8BD5], 5), ([0x5206, 0x6790], 3)]
   \<and> ranks_before (space_cut
      [0x6D4B, 0x8BD5, 0x20, 0x5206, 0x6790, 0x20, 0x6570, 0x636E, 0x20,
       0x6D4B, 0x8BD5, 0x20, 0x5206, 0x6790, 0x20, 0x6570, 0x636E, 0x20,
       0x6D4B, 0x8BD5, 0x20, 0x5206, 0x6790, 0x20, 0x6570, 0x636E, 0x20,
       0x6D4B, 0x8BD5, 0x20, 0x6D4B, 0x8BD5]) ([0x5206, 0x6790], 3) ([0x6570, 0x636E], 3)"
proof -
  let ?t = "[0x6D4B, 0x8BD5, 0x20, 0x5206, 0x6790, 0x20, 0x6570, 0x636E, 0x20,
       0x6D4B, 0x8BD5, 0x20, 0x5206, 0x6790, 0x20, 0x6570, 0x636E, 0x20,
       0x6D4B, 0x8BD5, 0x20, 0x5206, 0x6790, 0x20, 0x6570, 0x636E, 0x20,
       0x6D4B, 0x8BD5, 0x20, 0x6D4B, 0x8BD5] :: ustr"
  have fm: "segment_and_count space_cut ?t {}
     = [([0x6D4B, 0x8BD5], 5), ([0x5206, 0x6790], 3), ([0x6570, 0x636E], 3)]"
    by (simp add: eval_defs)
  have top: "most_common 2 [([0x6D4B, 0x8BD5], 5), ([0x5206, 0x6790], 3), ([0x6570, 0x636E], 3)]
     = [([0x6D4B, 0x8BD5], 5), ([0x5206, 0x6790], 3 :: int)]"
    by (simp add: most_common_def)
  have "\<forall>a \<in> set (most_common 2 (segment_and_count space_cut ?t {})).
          \<forall>b \<in> set (segment_and_count space_cut ?t {}) - set (most_common 2 (segment_and_count space_cut ?t {})).
             ranks_before (space_cut ?t) a b"
    using most_common_tie_break[of space_cut ?t "{}" 2] unfolding Let_def by blast
  then have "ranks_before (space_cut ?t) ([0x5206, 0x6790], 3) ([0x6570, 0x636E], 3)"
    unfolding fm top by simp
  with fm top show ?thesis by simp
qed

text \<open>
  Claim C2. For every text that the Normalizer produced and every stopword set, every key of
  the frequency map returned by \<open>segment_and_count\<close> is a non-empty string composed only
  of CJK ideographs or ASCII letters, is not a member of the stopword set, and has a count of
  at least 1. The segmenter is an external library: it is required to partition the text it
  is given (its tokens concatenate to the text) and to yield white space apart from other
  characters (a token is white space only or has none). Non-emptiness, the stopword filter
  and the count hold for every text, normalized or not.
\<close>

theorem segment_and_count_keys:
  "(\<forall>(w, k) \<in> set (segment_and_count jieba_cut text stopwords).
       w \<noteq> [] \<and> w \<notin> stopwords \<and> 1 \<le> k)
   \<and> (concat (jieba_cut (preprocess_text raw)) = preprocess_text raw
       \<and> (\<forall>tok \<in> set (jieba_cut (preprocess_text raw)).
             (\<forall>c \<in> set tok. is_space c) \<or> (\<forall>c \<in> set tok. \<not> is_space c))
      \<longrightarrow> (\<forall>(w, k) \<in> set (segment_and_count jieba_cut (preprocess_text raw) stopwords).
             w \<noteq> [] \<and> (\<forall>c \<in> set w. is_cjk c \<or> is_ascii_letter c) \<and> w \<notin> stopwords \<and> 1 \<le> k))"
proof -
  have a: "\<forall>(w, k) \<in> set (segment_and_count jieba_cut t stopwords).
       w \<noteq> [] \<and> w \<notin> stopwords \<and> 1 \<le> k" for t
  proof (clarify, intro conjI)
    fix w k assume m: "(w, k) \<in> set (segment_and_count jieba_cut t stopwords)"
    let ?kept = "filter (\<lambda>word. strip word \<noteq> [] \<and> word \<notin> stopwords) (jieba_cut t)"
    from m have w: "w \<in> set (jieba_cut t)" and s: "strip w \<noteq> []" and n: "w \<notin> stopwords"
      and k: "k = int (count_list ?kept w)"
      by (simp_all add: segment_and_count_entry)
    from s show "w \<noteq> []" using strip_Nil by auto
    from n show "w \<notin> stopwords" .
    from w s n have "w \<in> set ?kept" by simp
    then have "0 < count_list ?kept w" by (rule count_list_pos)
    with k show "1 \<le> k" by simp
  qed
  have b: "concat (jieba_cut (preprocess_text raw)) = preprocess_text raw
       \<and> (\<forall>tok \<in> set (jieba_cut (preprocess_text raw)).
             (\<forall>c \<in> set tok. is_space c) \<or> (\<forall>c \<in> set tok. \<not> is_space c))
      \<longrightarrow> (\<forall>(w, k) \<in> set (segment_and_count jieba_cut (preprocess_text raw) stopwords).
             w \<noteq> [] \<and> (\<forall>c \<in> set w. is_cjk c \<or> is_ascii_letter c) \<and> w \<notin> stopwords \<and> 1 \<le> k)"
  proof (intro impI, elim conjE, clarify, intro conjI)
    let ?t = "preprocess_text raw"
    fix w k
    assume part: "concat (jieba_cut ?t) = ?t"
      and pure: "\<forall>tok \<in> set (jieba_cut ?t). (\<forall>c \<in> set tok. is_space c) \<or> (\<forall>c \<in> set tok. \<not> is_space c)"
      and m: "(w, k) \<in> set (segment_and_count jieba_cut ?t stopwords)"
    from a[of ?t] m show "w \<noteq> []" and "w \<notin> stopwords" and "1 \<le> k" by auto
    from m have w: "w \<in> set (jieba_cut ?t)" and s: "strip w \<noteq> []"
      by (simp_all add: segment_and_count_entry)
    from s have "\<not> (\<forall>c \<in> set w. is_space c)" using strip_all_space by blast
    with pure w have nospace: "\<forall>c \<in> set w. \<not> is_space c" by blast
    show "\<forall>c \<in> set w. is_cjk c \<or> is_ascii_letter c"
    proof
      fix c assume c: "c \<in> set w"
      with w have "c \<in> set (concat (jieba_cut ?t))" by auto
      with part have "c \<in> set ?t" by simp
      then have "is_word_char c \<or> c = 0x20"
        using preprocess_text_normal_form[of raw] by (simp add: normal_form_def)
      moreover from c nospace have "c \<noteq> 0x20" using space_is_space by auto
      ultimately show "is_cjk c \<or> is_ascii_letter c" by (simp add: is_word_char_def)
    qed
  qed
  from a[of "text"] b show ?thesis by (rule conjI)
qed

text \<open>
  C2 on the pipeline: a raw text with markup, punctuation and a stopword is normalized,
  segmented and counted; the two keys are a CJK word and a Latin word.
\<close>

theorem segment_and_count_keys_witness:
  "preprocess_text [0x3C, 0x62, 0x3E, 0x6D4B, 0x8BD5, 0x3C, 0x2F, 0x62, 0x3E, 0x2C, 0x20,
                    0x64, 0x61, 0x74, 0x61, 0x20, 0x6D4B, 0x8BD5, 0x21]
     = [0x62, 0x20, 0x6D4B, 0x8BD5, 0x20, 0x62, 0x20, 0x64, 0x61, 0x74, 0x61, 0x20, 0x6D4B, 0x8BD5]
   \<and> space_cut [0x62, 0x20, 0x6D4B, 0x8BD5, 0x20, 0x62, 0x20, 0x64, 0x61, 0x74, 0x61, 0x20, 0x6D4B, 0x8BD5]
     = [[0x62], [0x20], [0x6D4B, 0x8BD5], [0x20], [0x62], [0x20], [0x64, 0x61, 0x74, 0x61], [0x20],
        [0x6D4B, 0x8BD5]]
   \<and> segment_and_count space_cut
        (preprocess_text [0x3C, 0x62, 0x3E, 0x6D4B, 0x8BD5, 0x3C, 0x2F, 0x62, 0x3E, 0x2C, 0x20,
                          0x64, 0x61, 0x74, 0x61, 0x20, 0x6D4B, 0x8BD5, 0x21])
        {[0x62]}
     = [([0x6D4B, 0x8BD5], 2), ([0x64, 0x61, 0x74, 0x61], 1)]
   \<and> is_cjk 0x6D4B \<and> is_cjk 0x8BD5
   \<and> is_ascii_letter 0x64 \<and> is_ascii_letter 0x61 \<and> is_ascii_letter 0x74"
proof -
  let ?raw = "[0x3C, 0x62, 0x3E, 0x6D4B, 0x8BD5, 0x3C, 0x2F, 0x62, 0x3E, 0x2C, 0x20,
               0x64, 0x61, 0x74, 0x61, 0x20, 0x6D4B, 0x8BD5, 0x21] :: ustr"
  let ?t = "[0x62, 0x20, 0x6D4B, 0x8BD5, 0x20, 0x62, 0x20, 0x64, 0x61, 0x74, 0x61, 0x20, 0x6D4B, 0x8BD5] :: ustr"
  have p: "preprocess_text ?raw = ?t"
    by (simp add: eval_defs)
  have c: "space_cut ?t
     = [[0x62], [0x20], [0x6D4B, 0x8BD5], [0x20], [0x62], [0x20], [0x64, 0x61, 0x74, 0x61], [0x20],
        [0x6D4B, 0x8BD5]]"
    by (simp add: eval_defs)
  have fm: "segment_and_count space_cut (preprocess_text ?raw) {[0x62]}
     = [([0x6D4B, 0x8BD5], 2), ([0x64, 0x61, 0x74, 0x61], 1)]"
    unfolding p by (simp add: eval_defs)
  have h1: "concat (space_cut (preprocess_text ?raw)) = preprocess_text ?raw"
    by (rule concat_space_cut)
  have h2: "\<forall>tok \<in> set (space_cut (preprocess_text ?raw)).
             (\<forall>c \<in> set tok. is_space c) \<or> (\<forall>c \<in> set tok. \<not> is_space c)"
    using space_cut_pure by blast
  from segment_and_count_keys[of space_cut _ "{[0x62]}" ?raw] h1 h2
  have "\<forall>(w, k) \<in> set (segment_and_count space_cut (preprocess_text ?raw) {[0x62]}).
          w \<noteq> [] \<and> (\<forall>c \<in> set w. is_cjk c \<or> is_ascii_letter c) \<and> w \<notin> {[0x62]} \<and> 1 \<le> k"
    by blast
  then have "(is_cjk 0x6D4B \<and> is_cjk 0x8BD5)
      \<and> is_ascii_letter 0x64 \<and> is_ascii_letter 0x61 \<and> is_ascii_letter 0x74"
    unfolding fm by (simp add: char_defs)
  with p c fm show ?thesis by blast
qed

text \<open>
  Claim C3. The Normalizer is idempotent: applying \<open>preprocess_text\<close> twice equals
  applying it once, for every text.
\<close>

theorem preprocess_text_idempotent: "preprocess_text (preprocess_text x) = preprocess_text x"
  by (rule normal_form_fixed) (rule preprocess_text_normal_form)

text \<open>
  C3 at a text with markup characters, a run of spaces, punctuation, an ideographic space,
  a digit and a line break.
\<close>

theorem preprocess_text_idempotent_witness:
  "preprocess_text (preprocess_text
      [0x3C, 0x61, 0x3E, 0x20, 0x20, 0x6570, 0x636E, 0x2C, 0x3000, 0x62, 0x31, 0x0A])
     = preprocess_text [0x3C, 0x61, 0x3E, 0x20, 0x20, 0x6570, 0x636E, 0x2C, 0x3000, 0x62, 0x31, 0x0A]
   \<and> preprocess_text [0x3C, 0x61, 0x3E, 0x20, 0x20, 0x6570, 0x636E, 0x2C, 0x3000, 0x62, 0x31, 0x0A]
     = [0x61, 0x20, 0x6570, 0x636E, 0x20, 0x62]"
  using preprocess_text_idempotent
    [of "[0x3C, 0x61, 0x3E, 0x20, 0x20, 0x6570, 0x636E, 0x2C, 0x3000, 0x62, 0x31, 0x0A]"]
  by (simp add: eval_defs)

text \<open>
  Claim C4. For every input, the output of \<open>preprocess_text\<close> contains only CJK
  ideographs, ASCII letters and ASCII spaces, neither starts nor ends with a space, and has
  no two consecutive spaces.
\<close>

theorem preprocess_text_output_shape:
  "(\<forall>c \<in> set (preprocess_text x). is_cjk c \<or> is_ascii_letter c \<or> c = 0x20)
   \<and> (preprocess_text x \<noteq> [] \<longrightarrow> hd (preprocess_text x) \<noteq> 0x20 \<and> last (preprocess_text x) \<noteq> 0x20)
   \<and> (\<forall>i. Suc i < length (preprocess_text x) \<longrightarrow>
          \<not> (preprocess_text x ! i = 0x20 \<and> preprocess_text x ! Suc i = 0x20))"
proof -
  have n: "normal_form (preprocess_text x)" by (rule preprocess_text_normal_form)
  have a: "\<forall>c \<in> set (preprocess_text x). is_cjk c \<or> is_ascii_letter c \<or> c = 0x20"
    using n by (auto simp: normal_form_def is_word_char_def)
  have b: "preprocess_text x \<noteq> [] \<longrightarrow> hd (preprocess_text x) \<noteq> 0x20 \<and> last (preprocess_text x) \<noteq> 0x20"
    using n space_is_space by (auto simp: normal_form_def)
  have c: "\<forall>i. Suc i < length (preprocess_text x) \<longrightarrow>
          \<not> (preprocess_text x ! i = 0x20 \<and> preprocess_text x ! Suc i = 0x20)"
  proof (intro allI impI)
    fix i assume "Suc i < length (preprocess_text x)"
    moreover have "no_adjacent_space (preprocess_text x)" using n by (simp add: normal_form_def)
    ultimately have "\<not> (is_space (preprocess_text x ! i) \<and> is_space (preprocess_text x ! Suc i))"
      by (rule no_adjacent_nth[rotated])
    then show "\<not> (preprocess_text x ! i = 0x20 \<and> preprocess_text x ! Suc i = 0x20)"
      using space_is_space by auto
  qed
  from a b c show ?thesis by blast
qed

text \<open>
  C4 at a text with leading and trailing spaces, punctuation and runs of spaces.
\<close>

theorem preprocess_text_output_shape_witness:
  "preprocess_text [0x20, 0x20, 0x48, 0x65, 0x6C, 0x6C, 0x6F, 0x2C, 0x20, 0x20, 0x20, 0x4E16, 0x754C,
                    0x21, 0x21, 0x20, 0x20]
     = [0x48, 0x65, 0x6C, 0x6C, 0x6F, 0x20, 0x4E16, 0x754C]
   \<and> hd (preprocess_text [0x20, 0x20, 0x48, 0x65, 0x6C, 0x6C, 0x6F, 0x2C, 0x20, 0x20, 0x20, 0x4E16,
                           0x754C, 0x21, 0x21, 0x20, 0x20]) \<noteq> 0x20
   \<and> last (preprocess_text [0x20, 0x20, 0x48, 0x65, 0x6C, 0x6C, 0x6F, 0x2C, 0x20, 0x20, 0x20, 0x4E16,
                           0x754C, 0x21, 0x21, 0x20, 0x20]) \<noteq> 0x20"
proof -
  let ?raw = "[0x20, 0x20, 0x48, 0x65, 0x6C, 0x6C, 0x6F, 0x2C, 0x20, 0x20, 0x20, 0x4E16, 0x754C,
               0x21, 0x21, 0x20, 0x20] :: ustr"
  have e: "preprocess_text ?raw = [0x48, 0x65, 0x6C, 0x6C, 0x6F, 0x20, 0x4E16, 0x754C]"
    by (simp add: eval_defs)
  then have "preprocess_text ?raw \<noteq> []" by simp
  with preprocess_text_output_shape[of ?raw]
  have "hd (preprocess_text ?raw) \<noteq> 0x20 \<and> last (preprocess_text ?raw) \<noteq> 0x20" by blast
  with e show ?thesis by blast
qed

text \<open>
  Claim C5, as amended. For every parsed document with no body element the Extractor returns
  the empty string. When a body element is present, the first one in document order is used
  and the result is the concatenation, separated by a line break, of those of its descendant
  text nodes (plain text and CDATA sections; comments, declarations and the strings inside
  script, style and template elements are not among them) that are non-empty after trimming,
  each trimmed of leading and trailing white space; a text node of white space only
  contributes nothing, not an empty line.
\<close>

theorem body_text_extracts:
  "(\<not> (\<exists>contents. Tag (ascii ''body'') contents \<in> set (descendants soup)) \<longrightarrow> body_text soup = [])
   \<and> ((\<exists>contents. Tag (ascii ''body'') contents \<in> set (descendants soup)) \<longrightarrow>
        (\<exists>pre b post. descendants soup = pre @ b # post \<and> is_tag_named (ascii ''body'') b
           \<and> (\<forall>e \<in> set pre. \<not> is_tag_named (ascii ''body'') e)))
   \<and> (\<forall>pre b post. descendants soup = pre @ b # post \<and> is_tag_named (ascii ''body'') b
           \<and> (\<forall>e \<in> set pre. \<not> is_tag_named (ascii ''body'') e) \<longrightarrow>
        body_text soup
          = join [0x0A] (filter (\<lambda>s. s \<noteq> []) (map strip (text_nodes (descendants b)))))"
proof -
  have a: "\<not> (\<exists>contents. Tag (ascii ''body'') contents \<in> set (descendants soup)) \<longrightarrow> body_text soup = []"
  proof
    assume "\<not> (\<exists>contents. Tag (ascii ''body'') contents \<in> set (descendants soup))"
    then have "body soup = None" using body_None_iff[of soup] by blast
    then show "body_text soup = []" by (simp add: body_text_def)
  qed
  have b: "(\<exists>contents. Tag (ascii ''body'') contents \<in> set (descendants soup)) \<longrightarrow>
        (\<exists>pre b post. descendants soup = pre @ b # post \<and> is_tag_named (ascii ''body'') b
           \<and> (\<forall>e \<in> set pre. \<not> is_tag_named (ascii ''body'') e))"
    using body_present by blast
  have c: "\<forall>pre b post. descendants soup = pre @ b # post \<and> is_tag_named (ascii ''body'') b
           \<and> (\<forall>e \<in> set pre. \<not> is_tag_named (ascii ''body'') e) \<longrightarrow>
        body_text soup
          = join [0x0A] (filter (\<lambda>s. s \<noteq> []) (map strip (text_nodes (descendants b))))"
  proof (intro allI impI, elim conjE)
    fix pre b post
    assume "descendants soup = pre @ b # post" and "is_tag_named (ascii ''body'') b"
      and "\<forall>e \<in> set pre. \<not> is_tag_named (ascii ''body'') e"
    then have "body soup = Some b" by (rule body_first)
    then show "body_text soup
          = join [0x0A] (filter (\<lambda>s. s \<noteq> []) (map strip (text_nodes (descendants b))))"
      by (simp add: body_text_def get_text_def all_strings_text_nodes)
  qed
  from a b c show ?thesis by blast
qed

text \<open>
  C5 at a document with two body elements, the first holding a blank text node, a paragraph,
  a comment, a script and a padded text node: the text comes from the first body. And at a
  document without body.
\<close>

theorem body_text_extracts_witness:
  "body_text (Tag (ascii ''[document]'')
       [Tag (ascii ''html'')
          [Tag (ascii ''body'')
             [PageString NavigableString [0x20],
              Tag (ascii ''p'') [PageString NavigableString [0x61]],
              PageString Comment [0x62],
              Tag (ascii ''script'') [PageString Script [0x78]],
              PageString NavigableString [0x20, 0x63, 0x0A]],
           Tag (ascii ''body'') [PageString NavigableString [0x7A]]]])
     = [0x61, 0x0A, 0x63]
   \<and> body_text (Tag (ascii ''[document]'') [PageString NavigableString [0x61]]) = []"
proof -
  let ?b = "Tag (ascii ''body'')
             [PageString NavigableString [0x20],
              Tag (ascii ''p'') [PageString NavigableString [0x61]],
              PageString Comment [0x62],
              Tag (ascii ''script'') [PageString Script [0x78]],
              PageString NavigableString [0x20, 0x63, 0x0A]]"
  let ?b2 = "Tag (ascii ''body'') [PageString NavigableString [0x7A]]"
  let ?html = "Tag (ascii ''html'') [?b, ?b2]"
  let ?soup = "Tag (ascii ''[document]'') [?html]"
  have d: "descendants ?soup = [?html] @ ?b # (descendants ?b @ ?b2 # descendants ?b2)"
    by simp
  have n: "is_tag_named (ascii ''body'') ?b" by simp
  have p: "\<forall>e \<in> set [?html]. \<not> is_tag_named (ascii ''body'') e"
    by (simp add: ascii_def)
  from body_text_extracts[of ?soup] d n p
  have "body_text ?soup
          = join [0x0A] (filter (\<lambda>s. s \<noteq> []) (map strip (text_nodes (descendants ?b))))"
    by blast
  then have t: "body_text ?soup = [0x61, 0x0A, 0x63]"
    by (simp add: strip_def is_space_def interesting_string_types_def)
  have "\<not> (\<exists>contents. Tag (ascii ''body'') contents
            \<in> set (descendants (Tag (ascii ''[document]'') [PageString NavigableString [0x61]])))"
    by simp
  with body_text_extracts[of "Tag (ascii ''[document]'') [PageString NavigableString [0x61]]"]
  have "body_text (Tag (ascii ''[document]'') [PageString NavigableString [0x61]]) = []" by blast
  with t show ?thesis by blast
qed

text \<open>
  C5 as stated fails where the body has a text node of white space only: the Extractor
  returns the one remaining text, while the concatenation of all trimmed text nodes
  separated by line breaks starts with a line break.
\<close>

theorem body_text_blank_node:
  "body_text (Tag (ascii ''[document]'') [Tag (ascii ''html'')
       [Tag (ascii ''body'')
          [PageString NavigableString [0x20],
           Tag (ascii ''p'') [PageString NavigableString [0x61]]]]])
     = [0x61]
   \<and> spec_body_text (Tag (ascii ''[document]'') [Tag (ascii ''html'')
       [Tag (ascii ''body'')
          [PageString NavigableString [0x20],
           Tag (ascii ''p'') [PageString NavigableString [0x61]]]]])
     = [0x0A, 0x61]"
  by (simp add: body_text_def spec_body_text_def get_text_def body_def find_tag_def ascii_def
      strip_def is_space_def interesting_string_types_def)




text \<open>
  Claim C7. Given an empty frequency map, \<open>create_plotly_radar_chart\<close> returns
  \<open>None\<close>; it has no failing path. It returns \<open>None\<close> exactly when the map is empty
  or the requested N is not positive.
\<close>

theorem create_plotly_radar_chart_empty:
  "create_plotly_radar_chart [] top_n = None
   \<and> ((create_plotly_radar_chart word_counts top_n = None) = (word_counts = [] \<or> top_n \<le> 0))"
proof -
  have "(create_plotly_radar_chart word_counts top_n = None) = (most_common top_n word_counts = [])"
    for word_counts
    by (simp add: create_plotly_radar_chart_def Let_def)
  then show ?thesis by (simp add: most_common_Nil_iff)
qed

text \<open>
  C7 at the empty map, at the map counted from the empty text, and at a map of one token,
  for which a chart is built.
\<close>

theorem create_plotly_radar_chart_empty_witness:
  "create_plotly_radar_chart [] 10 = None
   \<and> create_plotly_radar_chart (segment_and_count space_cut [] {}) 10 = None
   \<and> create_plotly_radar_chart [([0x61], 2)] 10
       = Some (px_line_polar [2] [[0x61]] True radar_chart (Some (ascii ''toself'')) (Some 5))"
  using create_plotly_radar_chart_empty[of 10 "[([0x61], 2)]"]
  by (simp add: create_plotly_radar_chart_def most_common_def segment_and_count_def
      space_cut_def Counter_def)

text \<open>
  Claim C8. For every chart-type selector outside the recognized names,
  \<open>create_plotly_chart\<close> should return \<open>None\<close> without raising. The code does so only
  when the top-N frame has a row: the five charts are built before the lookup, and the
  scatter chart raises \<open>ValueError\<close> on a frame without rows, whatever the selector. With
  at least one row and no negative count the function returns, and it returns \<open>None\<close>
  exactly when the selector is none of vertical bar, horizontal bar, pie, line and scatter.
\<close>

theorem create_plotly_chart_outcome:
  "(most_common top_n word_counts = []
      \<longrightarrow> create_plotly_chart chart_type word_counts top_n = Inl ValueError)
   \<and> (most_common top_n word_counts \<noteq> [] \<and> (\<forall>(w, k) \<in> set word_counts. 0 \<le> k)
      \<longrightarrow> (\<exists>chart. create_plotly_chart chart_type word_counts top_n = Inr chart
             \<and> ((chart = None)
                  = (chart_type \<notin> {vertical_bar, horizontal_bar, pie_chart, line_chart,
                                   scatter_chart}))))"
proof -
  let ?df = "DataFrame (most_common top_n word_counts) [col_word, col_freq]"
  have r: "rows ?df = most_common top_n word_counts" by (simp add: DataFrame_def)
  have a: "most_common top_n word_counts = []
      \<longrightarrow> create_plotly_chart chart_type word_counts top_n = Inl ValueError"
    by (simp add: create_plotly_chart_def Let_def scatter_call_def DataFrame_def)
  have b: "most_common top_n word_counts \<noteq> [] \<and> (\<forall>(w, k) \<in> set word_counts. 0 \<le> k)
      \<longrightarrow> (\<exists>chart. create_plotly_chart chart_type word_counts top_n = Inr chart
             \<and> ((chart = None)
                  = (chart_type \<notin> {vertical_bar, horizontal_bar, pie_chart, line_chart,
                                   scatter_chart})))"
  proof (intro impI, elim conjE)
    assume ne: "most_common top_n word_counts \<noteq> []" and pos: "\<forall>(w, k) \<in> set word_counts. 0 \<le> k"
    from pos have "\<forall>(w, k) \<in> set (rows ?df). 0 \<le> k"
      unfolding r using most_common_subset[of top_n word_counts] by blast
    moreover from ne have "rows ?df \<noteq> []" unfolding r .
    ultimately have "scatter_call ?df col_word col_freq col_freq scatter_chart
        = Inr (px_scatter ?df col_word col_freq col_freq scatter_chart)"
      by (rule scatter_call_ok[rotated])
    then show "\<exists>chart. create_plotly_chart chart_type word_counts top_n = Inr chart
             \<and> ((chart = None)
                  = (chart_type \<notin> {vertical_bar, horizontal_bar, pie_chart, line_chart,
                                   scatter_chart}))"
      by (simp add: create_plotly_chart_def Let_def)
  qed
  from a b show ?thesis by (rule conjI)
qed

text \<open>
  C8 at a selector that is no chart name: with the empty frequency map the call raises, with
  a map of one token it returns \<open>None\<close>; and, for contrast, the pie chart of that map.
\<close>

theorem create_plotly_chart_outcome_witness:
  "ascii ''3D'' \<notin> {vertical_bar, horizontal_bar, pie_chart, line_chart, scatter_chart}
   \<and> create_plotly_chart (ascii ''3D'') [] 20 = Inl ValueError
   \<and> create_plotly_chart (ascii ''3D'') [([0x61], 2)] 20 = Inr None
   \<and> create_plotly_chart pie_chart [([0x61], 2)] 20
       = Inr (Some (px_pie \<lparr>columns = [col_word, col_freq], rows = [([0x61], 2)]\<rparr>
                 col_freq col_word pie_chart))"
proof -
  have m: "ascii ''3D'' \<notin> {vertical_bar, horizontal_bar, pie_chart, line_chart, scatter_chart}"
    by (simp add: ascii_def chart_names)
  have e: "most_common 20 [] = []" by (simp add: most_common_def)
  from create_plotly_chart_outcome[of 20 "[]" "ascii ''3D''"] e
  have a: "create_plotly_chart (ascii ''3D'') [] 20 = Inl ValueError" by blast
  have ne: "most_common 20 [([0x61], 2)] \<noteq> [] \<and> (\<forall>(w, k) \<in> set [([0x61 :: nat], 2 :: int)]. 0 \<le> k)"
    by (simp add: most_common_def)
  from create_plotly_chart_outcome[of 20 "[([0x61], 2)]" "ascii ''3D''"] ne m
  have b: "create_plotly_chart (ascii ''3D'') [([0x61], 2)] 20 = Inr None" by auto
  have c: "create_plotly_chart pie_chart [([0x61], 2)] 20
       = Inr (Some (px_pie \<lparr>columns = [col_word, col_freq], rows = [([0x61], 2)]\<rparr>
                 col_freq col_word pie_chart))"
    by (simp add: create_plotly_chart_def scatter_call_def DataFrame_def most_common_def chart_names)
  from m a b c show ?thesis by blast
qed

text \<open>
  Claim C9. Empty text is not an error: \<open>preprocess_text\<close> maps the empty string to the
  empty string, and \<open>segment_and_count\<close> maps the empty string to the empty frequency
  map for every stopword set, given that the segmenter yields no text that is not in its
  input (the tokens it yields for the empty string concatenate to the empty string).
\<close>

theorem empty_text_propagates:
  "preprocess_text [] = []
   \<and> (concat (jieba_cut []) = [] \<longrightarrow> segment_and_count jieba_cut [] stopwords = [])"
proof -
  have a: "preprocess_text [] = []"
    by (simp add: preprocess_text_def sub_pattern_def strip_def)
  have b: "concat (jieba_cut []) = [] \<longrightarrow> segment_and_count jieba_cut [] stopwords = []"
  proof
    assume "concat (jieba_cut []) = []"
    then have "\<forall>w \<in> set (jieba_cut []). w = []" by simp
    then have "filter (\<lambda>word. strip word \<noteq> [] \<and> word \<notin> stopwords) (jieba_cut []) = []"
      by (auto simp: filter_empty_conv strip_Nil)
    then show "segment_and_count jieba_cut [] stopwords = []"
      by (simp add: segment_and_count_def Counter_def)
  qed
  from a b show ?thesis by blast
qed

text \<open>
  C9 with the concrete segmenter and a stopword set of one word.
\<close>

theorem empty_text_propagates_witness:
  "concat (space_cut []) = [] \<and> preprocess_text [] = []
   \<and> segment_and_count space_cut [] {[0x61]} = []"
  using empty_text_propagates[of space_cut "{[0x61]}"]
  by (simp add: space_cut_def)

text \<open>
  Claim C10. Top-N retrieval returns exactly min(N, number of distinct tokens) pairs in
  non-increasing order of count; for a frequency map with fewer than N distinct tokens these
  are all its pairs, each once, with neither failure nor padding.
\<close>

theorem most_common_fewer_than_n:
  "length (most_common n c) = min (nat n) (length c)
   \<and> sorted_wrt (\<lambda>a b. snd b \<le> snd a) (most_common n c)
   \<and> (int (length c) < n \<longrightarrow> mset (most_common n c) = mset c \<and> length (most_common n c) = length c)"
proof -
  have "int (length c) < n \<longrightarrow> mset (most_common n c) = mset c \<and> length (most_common n c) = length c"
    using most_common_all[of c n] most_common_length[of n c] by auto
  then show ?thesis using most_common_length most_common_descending by blast
qed

text \<open>
  C10 at a map of three tokens with N = 20, the default of the listing and of the charts.
\<close>

theorem most_common_fewer_than_n_witness:
  "int (length [([0x61], 1), ([0x62], 4), ([0x63], 2 :: int)]) < 20
   \<and> most_common 20 [([0x61], 1), ([0x62], 4), ([0x63], 2)]
        = [([0x62], 4), ([0x63], 2), ([0x61], 1)]
   \<and> length (most_common 20 [([0x61], 1), ([0x62], 4), ([0x63], 2)]) = 3"
  using most_common_fewer_than_n[of 20 "[([0x61], 1), ([0x62], 4), ([0x63], 2)]"]
  by (simp add: most_common_def)

end
